theory Spec2Isabelle
  imports Main
begin

section \<open>Errors and contexts\<close>

text \<open>
  Go's \<open>error\<close> values, as far as \<open>brokkr.go\<close> tells them apart: the two sentinel errors
  of package \<open>context\<close>, an opaque error with a message (\<open>errors.New\<close>, or \<open>fmt.Errorf\<close>
  with the verb \<open>%v\<close>, which does not wrap), and an error that wraps another one
  (\<open>fmt.Errorf\<close> with \<open>%w\<close>). A nil error is \<open>None\<close> of \<open>error option\<close>.
\<close>

datatype error = Canceled | DeadlineExceeded | New string | Wrap string error

fun Error :: "error \<Rightarrow> string" where
  "Error Canceled = ''context canceled''"
| "Error DeadlineExceeded = ''context deadline exceeded''"
| "Error (New m) = m"
| "Error (Wrap m e) = m @ '': '' @ Error e"

text \<open>\<open>errors.Is\<close>: the error itself or one on its chain of wrapped errors equals the target.\<close>

fun errors_Is :: "error \<Rightarrow> error \<Rightarrow> bool" where
  "errors_Is (Wrap m e) target = (Wrap m e = target \<or> errors_Is e target)"
| "errors_Is e target = (e = target)"

text \<open>
  A \<open>context.Context\<close> as its observable state: \<open>Err\<close> (nil until the context is done;
  \<open>Done()\<close> is closed exactly when \<open>Err\<close> is not nil), \<open>Deadline\<close> and the key/value pairs.
  Times and durations are nanoseconds. Cancelling a context that is done already
  changes nothing; the propagation from a parent to its children is written out where
  the parent is cancelled (\<open>cancel_children\<close>) and where the clock advances (\<open>expire\<close>).
\<close>

record Context =
  Err :: "error option"
  Deadline :: "int option"
  Values :: "(string \<times> string) list"

definition Background :: Context where
  "Background = \<lparr>Err = None, Deadline = None, Values = []\<rparr>"

definition cancel :: "Context \<Rightarrow> error \<Rightarrow> Context" where
  "cancel ctx e = (if Err ctx = None then ctx\<lparr>Err := Some e\<rparr> else ctx)"

definition WithCancel :: "Context \<Rightarrow> Context" where
  "WithCancel parent = parent"

definition WithValue :: "Context \<Rightarrow> string \<Rightarrow> string \<Rightarrow> Context" where
  "WithValue parent k v = parent\<lparr>Values := (k, v) # Values parent\<rparr>"

definition Value :: "Context \<Rightarrow> string \<Rightarrow> string option" where
  "Value ctx k = map_of (Values ctx) k"

text \<open>
  \<open>context.WithTimeout(parent, d)\<close> called at time \<open>now\<close>: a parent that is done already
  hands its error to the child at once; otherwise a duration that is not positive
  expires the child at once; otherwise the child is live until its deadline.
\<close>

definition WithTimeout :: "Context \<Rightarrow> int \<Rightarrow> int \<Rightarrow> Context" where
  "WithTimeout parent now d =
     (case Deadline parent of
        Some cur \<Rightarrow> if cur < now + d then WithCancel parent else
          parent\<lparr>Deadline := Some (now + d),
                 Err := (if Err parent \<noteq> None then Err parent
                         else if d \<le> 0 then Some DeadlineExceeded else None)\<rparr>
      | None \<Rightarrow>
          parent\<lparr>Deadline := Some (now + d),
                 Err := (if Err parent \<noteq> None then Err parent
                         else if d \<le> 0 then Some DeadlineExceeded else None)\<rparr>)"

definition expire :: "int \<Rightarrow> Context \<Rightarrow> Context" where
  "expire now ctx =
     (case Deadline ctx of
        Some d \<Rightarrow> if d \<le> now then cancel ctx DeadlineExceeded else ctx
      | None \<Rightarrow> ctx)"

definition Second :: int where
  "Second = 1000000000"

section \<open>The orchestrator\<close>

datatype signal = SIGTERM | SIGQUIT | SIGINT | SIGHUP

text \<open>
  Modelled from the spec: the interface \<open>background.Process\<close> and the function
  \<open>background.IsCriticalToStop\<close> of package \<open>component/background\<close>, which is not among
  the sources. A task has a name and a criticality flag; what its \<open>OnStart\<close> and \<open>OnStop\<close>
  return, and when, belongs to the task and arrives with the events of a run.
\<close>

record Process =
  GetName :: string
  critical :: bool

definition IsCriticalToStop :: "Process \<Rightarrow> bool" where
  "IsCriticalToStop p = critical p"

text \<open>
  The struct \<open>Brokkr\<close>. \<open>mainContextCancel\<close> is a function in the source that is only ever
  compared with nil and called; the field says whether it is not nil.
\<close>

record Brokkr =
  signals :: "signal list"
  stopTimeout :: int
  backgroundTasks :: "Process list"
  mainContext :: Context
  mainContextCancel :: bool

type_synonym Options = "Brokkr \<Rightarrow> Brokkr"

definition SetForceStopTimeout :: "int \<Rightarrow> Options" where
  "SetForceStopTimeout d = (\<lambda>c. c\<lparr>stopTimeout := d\<rparr>)"

definition AddBackgroundTasks :: "Process list \<Rightarrow> Options" where
  "AddBackgroundTasks bt = (\<lambda>c. c\<lparr>backgroundTasks := backgroundTasks c @ bt\<rparr>)"

definition NewBrokkr :: "Options list \<Rightarrow> Brokkr" where
  "NewBrokkr opts =
     foldl (\<lambda>b opt. opt b)
       \<lparr>signals = [SIGTERM, SIGQUIT, SIGINT],
        stopTimeout = 60 * Second,
        backgroundTasks = [],
        mainContext = WithCancel Background,
        mainContextCancel = True\<rparr>
       opts"

text \<open>\<open>Stop\<close> on the struct alone: the orchestrator after the call, and the error returned.\<close>

definition Stop :: "Brokkr \<Rightarrow> Brokkr \<times> error option" where
  "Stop c =
     ((if mainContextCancel c then c\<lparr>mainContext := cancel (mainContext c) Canceled\<rparr> else c),
      None)"

definition createChildContext :: "Brokkr \<Rightarrow> string \<Rightarrow> string \<Rightarrow> Context" where
  "createChildContext c k v = WithValue (mainContext c) k v"

section \<open>A run of Start\<close>

text \<open>
  \<open>Start\<close> runs its own goroutine and, for every task, a stop unit and a start unit, and
  one more unit that waits for a signal. A run is an interleaving of their steps with
  the calls and events of the environment.

  The state of the goroutine of \<open>Start\<close>: in the \<open>for ... range\<close> loop with the tasks
  still to come, blocked in \<open>TaskErrorGroup.Wait()\<close>, or returned.
\<close>

datatype main_pc = Looping "Process list" | Waiting | Returned "error option"

datatype start_unit = StartRunning | StartReturned

datatype stop_unit = StopWaiting | StopRunning Context | StopReturned

datatype coord_unit = CoordNotSpawned | CoordSelecting | CoordReturned

text \<open>
  The two closures of one loop iteration. \<open>task\<close> is the copy \<open>task := t\<close> that both
  closures capture.
\<close>

record units =
  task :: Process
  startU :: start_unit
  stopU :: stop_unit

text \<open>
  \<open>loopvar_t\<close> is the range variable \<open>t\<close>. The CI workflow builds with Go 1.20 and 1.21,
  where a \<open>for\<close> loop has one variable for all its iterations, so a closure that mentions
  \<open>t\<close> reads what the loop has assigned last. \<open>groupErr\<close> is the error of the errgroup
  (written once), \<open>submitted\<close> the history of all non-nil errors the units returned to
  it, \<open>OnStop_calls\<close> the history of the calls of \<open>OnStop\<close>: the index of the task and
  the context passed. \<open>bgTasksWG\<close> is never waited for and is left out.
\<close>

record state =
  brokkr :: Brokkr
  clock :: int
  pc :: main_pc
  loopvar_t :: "Process option"
  TaskErrorGroupCtx :: Context
  groupErr :: "error option"
  submitted :: "error list"
  tunits :: "units list"
  coord :: coord_unit
  notified :: bool
  interruptSignal :: "signal list"
  OnStop_calls :: "(nat \<times> Context) list"

text \<open>
  What a run is made of. \<open>Main\<close> is the next step of the goroutine of \<open>Start\<close>;
  \<open>CallStop\<close> a call of \<open>Stop()\<close> from outside; \<open>Signal\<close> an OS signal; \<open>Tick\<close> the passing
  of time; \<open>StopWake i u\<close> the stop unit of task \<open>i\<close> getting past \<open><-Done()\<close> with \<open>u\<close> the
  result of \<open>uuid.NewUUID()\<close>; \<open>StopReturn i r\<close> and \<open>StartReturn i r\<close> the return of
  \<open>OnStop\<close> and \<open>OnStart\<close> of task \<open>i\<close> with \<open>r\<close>; \<open>CoordCtxDone\<close> and
  \<open>CoordInterrupt\<close> the two branches of the \<open>select\<close>.
\<close>

datatype event =
    Main
  | CallStop
  | Signal signal
  | Tick nat
  | StopWake nat "error + string"
  | StopReturn nat "error option"
  | StartReturn nat "error option"
  | CoordCtxDone
  | CoordInterrupt

definition init :: "Brokkr \<Rightarrow> state" where
  "init c =
     \<lparr>brokkr = c, clock = 0, pc = Looping (backgroundTasks c), loopvar_t = None,
      TaskErrorGroupCtx = WithCancel (mainContext c), groupErr = None, submitted = [],
      tunits = [], coord = CoordNotSpawned, notified = False, interruptSignal = [],
      OnStop_calls = []\<rparr>"

text \<open>
  The wrapper of \<open>errgroup.Group.Go\<close> once the function has returned \<open>r\<close>: the first
  error that is not nil is kept and cancels the context of the group.
\<close>

definition group_return :: "error option \<Rightarrow> state \<Rightarrow> state" where
  "group_return r s =
     (case r of
        None \<Rightarrow> s
      | Some e \<Rightarrow>
          if groupErr s = None
          then s\<lparr>submitted := submitted s @ [e], groupErr := Some e,
                 TaskErrorGroupCtx := cancel (TaskErrorGroupCtx s) Canceled\<rparr>
          else s\<lparr>submitted := submitted s @ [e]\<rparr>)"

definition cancel_stop :: "stop_unit \<Rightarrow> stop_unit" where
  "cancel_stop u = (case u of StopRunning ctx \<Rightarrow> StopRunning (cancel ctx Canceled) | _ \<Rightarrow> u)"

definition expire_stop :: "int \<Rightarrow> stop_unit \<Rightarrow> stop_unit" where
  "expire_stop now u = (case u of StopRunning ctx \<Rightarrow> StopRunning (expire now ctx) | _ \<Rightarrow> u)"

text \<open>
  The contexts derived from \<open>mainContext\<close> are the context of the group and the stop
  contexts that are in use; cancelling \<open>mainContext\<close> cancels them.
\<close>

definition cancel_children :: "state \<Rightarrow> state" where
  "cancel_children s =
     s\<lparr>TaskErrorGroupCtx := cancel (TaskErrorGroupCtx s) Canceled,
       tunits := map (\<lambda>u. u\<lparr>stopU := cancel_stop (stopU u)\<rparr>) (tunits s)\<rparr>"

definition call_Stop :: "state \<Rightarrow> state \<times> error option" where
  "call_Stop s =
     (case Stop (brokkr s) of
        (c', r) \<Rightarrow>
          ((if Err (mainContext (brokkr s)) = None \<and> Err (mainContext c') \<noteq> None
            then cancel_children (s\<lparr>brokkr := c'\<rparr>) else s\<lparr>brokkr := c'\<rparr>), r))"

definition all_returned :: "state \<Rightarrow> bool" where
  "all_returned s =
     (list_all (\<lambda>u. startU u = StartReturned \<and> stopU u = StopReturned) (tunits s)
      \<and> coord s = CoordReturned)"

text \<open>The last lines of \<open>Start\<close>: what it makes of the error of \<open>Wait()\<close>.\<close>

definition Start_return :: "error option \<Rightarrow> error option" where
  "Start_return err =
     (case err of
        Some e \<Rightarrow> if \<not> errors_Is e Canceled then Some e else None
      | None \<Rightarrow> None)"

definition main_step :: "state \<Rightarrow> state" where
  "main_step s =
     (case pc s of
        Looping (p # rest) \<Rightarrow>
          s\<lparr>loopvar_t := Some p,
            tunits := tunits s @ [\<lparr>task = p, startU = StartRunning, stopU = StopWaiting\<rparr>],
            pc := Looping rest\<rparr>
      | Looping [] \<Rightarrow> s\<lparr>notified := True, coord := CoordSelecting, pc := Waiting\<rparr>
      | Waiting \<Rightarrow>
          if all_returned s
          then s\<lparr>TaskErrorGroupCtx := cancel (TaskErrorGroupCtx s) Canceled,
                 pc := Returned (Start_return (groupErr s))\<rparr>
          else s
      | Returned r \<Rightarrow> s)"

text \<open>
  \<open>signal.Notify\<close> never blocks: a signal that finds the channel of capacity one full
  is dropped. An empty list of signals would mean all of them. A signal that arrives
  before \<open>signal.Notify\<close> has run does not reach the channel.
\<close>

definition signal_step :: "signal \<Rightarrow> state \<Rightarrow> state" where
  "signal_step sig s =
     (if notified s \<and> (signals (brokkr s) = [] \<or> sig \<in> set (signals (brokkr s)))
         \<and> interruptSignal s = []
      then s\<lparr>interruptSignal := [sig]\<rparr> else s)"

definition tick_step :: "nat \<Rightarrow> state \<Rightarrow> state" where
  "tick_step d s =
     s\<lparr>clock := clock s + int d,
       tunits := map (\<lambda>u. u\<lparr>stopU := expire_stop (clock s + int d) (stopU u)\<rparr>) (tunits s)\<rparr>"

text \<open>
  The stop unit of task \<open>i\<close> after \<open><-TaskErrorGroupCtx.Done()\<close>. The name in the child
  context is \<open>t.GetName()\<close>, read from the range variable; \<open>OnStop\<close> is called on \<open>task\<close>.
  \<open>uuid_error\<close> is the \<open>fmt.Errorf\<close> of the unit when \<open>uuid.NewUUID()\<close> fails; the branch
  is modelled as the source has it, though the generator of \<open>github.com/google/uuid\<close>
  returns a nil error from every call. A unit exists
  only after the loop has assigned the range variable, so its value is there when a
  unit reads it. The deferred \<open>taskStopCtxCancel()\<close> runs when the unit returns, where the
  state keeps the context no longer.
\<close>

definition uuid_error :: "error \<Rightarrow> error" where
  "uuid_error errNewUUID =
     New (''unable to generate background task UUID, err: '' @ Error errNewUUID)"

definition stop_wake :: "nat \<Rightarrow> error + string \<Rightarrow> state \<Rightarrow> state" where
  "stop_wake i u s =
     (if i < length (tunits s) \<and> stopU (tunits s ! i) = StopWaiting
         \<and> Err (TaskErrorGroupCtx s) \<noteq> None
      then
        (case u of
           Inl errNewUUID \<Rightarrow>
             group_return (Some (uuid_error errNewUUID))
               (s\<lparr>tunits := (tunits s)[i := (tunits s ! i)\<lparr>stopU := StopReturned\<rparr>]\<rparr>)
         | Inr newUUID \<Rightarrow>
             (case loopvar_t s of
                None \<Rightarrow> s
              | Some t \<Rightarrow>
                  (let taskStopCtx =
                         WithTimeout (createChildContext (brokkr s) newUUID (GetName t))
                           (clock s) (stopTimeout (brokkr s))
                   in s\<lparr>tunits := (tunits s)[i := (tunits s ! i)\<lparr>stopU := StopRunning taskStopCtx\<rparr>],
                        OnStop_calls := OnStop_calls s @ [(i, taskStopCtx)]\<rparr>)))
      else s)"

definition stop_return :: "nat \<Rightarrow> error option \<Rightarrow> state \<Rightarrow> state" where
  "stop_return i r s =
     (if i < length (tunits s)
      then
        (case stopU (tunits s ! i) of
           StopRunning ctx \<Rightarrow>
             group_return r (s\<lparr>tunits := (tunits s)[i := (tunits s ! i)\<lparr>stopU := StopReturned\<rparr>]\<rparr>)
         | _ \<Rightarrow> s)
      else s)"

definition start_return :: "nat \<Rightarrow> error option \<Rightarrow> state \<Rightarrow> state" where
  "start_return i taskErr s =
     (if i < length (tunits s) \<and> startU (tunits s ! i) = StartRunning
      then
        group_return
          (if taskErr \<noteq> None \<and> IsCriticalToStop (task (tunits s ! i)) then taskErr else None)
          (s\<lparr>tunits := (tunits s)[i := (tunits s ! i)\<lparr>startU := StartReturned\<rparr>]\<rparr>)
      else s)"

definition coord_ctx_done :: "state \<Rightarrow> state" where
  "coord_ctx_done s =
     (if coord s = CoordSelecting \<and> Err (TaskErrorGroupCtx s) \<noteq> None
      then group_return (Err (TaskErrorGroupCtx s)) (s\<lparr>coord := CoordReturned\<rparr>)
      else s)"

definition coord_interrupt :: "state \<Rightarrow> state" where
  "coord_interrupt s =
     (if coord s = CoordSelecting \<and> interruptSignal s \<noteq> []
      then
        (case call_Stop (s\<lparr>interruptSignal := [], coord := CoordReturned\<rparr>) of
           (s', r) \<Rightarrow> group_return r s')
      else s)"

fun step :: "event \<Rightarrow> state \<Rightarrow> state" where
  "step Main s = main_step s"
| "step CallStop s = fst (call_Stop s)"
| "step (Signal sig) s = signal_step sig s"
| "step (Tick d) s = tick_step d s"
| "step (StopWake i u) s = stop_wake i u s"
| "step (StopReturn i r) s = stop_return i r s"
| "step (StartReturn i r) s = start_return i r s"
| "step CoordCtxDone s = coord_ctx_done s"
| "step CoordInterrupt s = coord_interrupt s"

definition run :: "event list \<Rightarrow> state \<Rightarrow> state" where
  "run sched s = foldl (\<lambda>s e. step e s) s sched"

text \<open>
  \<open>Start\<close> under a schedule: \<open>Some r\<close> when it has returned \<open>r\<close> by the end of the
  schedule, \<open>None\<close> when it is still running or blocked.
\<close>

definition Start_result :: "state \<Rightarrow> error option option" where
  "Start_result s = (case pc s of Returned r \<Rightarrow> Some r | _ \<Rightarrow> None)"

definition Start :: "Brokkr \<Rightarrow> event list \<Rightarrow> error option option" where
  "Start c sched = Start_result (run sched (init c))"

section \<open>Observations on a run\<close>

text \<open>How often \<open>OnStop\<close> of task \<open>i\<close> has been called.\<close>

definition OnStop_count :: "nat \<Rightarrow> state \<Rightarrow> nat" where
  "OnStop_count i s = length (filter (\<lambda>call. fst call = i) (OnStop_calls s))"

text \<open>Every error the units have returned to the group so far is a cancellation.\<close>

definition only_cancellations :: "state \<Rightarrow> bool" where
  "only_cancellations s = list_all (\<lambda>e. errors_Is e Canceled) (submitted s)"

text \<open>
  A schedule that lets a run come to its end from the state \<open>s\<close>: the loop of \<open>Start\<close>
  is run to \<open>Wait()\<close>, then every task's \<open>OnStart\<close> returns nil, its stop unit wakes up
  with a UUID and its \<open>OnStop\<close> returns nil, the last unit leaves its \<open>select\<close>, and
  \<open>Wait()\<close> is tried. Steps that are not enabled change nothing.
\<close>

definition finish_unit :: "nat \<Rightarrow> event list" where
  "finish_unit i = [StartReturn i None, StopWake i (Inr ''uuid''), StopReturn i None]"

definition drain :: "state \<Rightarrow> event list" where
  "drain s =
     (case pc s of Looping rest \<Rightarrow> replicate (Suc (length rest)) Main | _ \<Rightarrow> [])
     @ concat (map finish_unit [0..<length (backgroundTasks (brokkr s))])
     @ [CoordCtxDone, Main]"

text \<open>Tasks and orchestrators for the concrete runs below.\<close>

definition task_a :: Process where
  "task_a = \<lparr>GetName = ''a'', critical = True\<rparr>"

definition task_b :: Process where
  "task_b = \<lparr>GetName = ''b'', critical = True\<rparr>"

definition task_n :: Process where
  "task_n = \<lparr>GetName = ''n'', critical = False\<rparr>"

definition one_task :: Brokkr where
  "one_task = NewBrokkr [AddBackgroundTasks [task_a]]"

definition two_tasks :: Brokkr where
  "two_tasks = NewBrokkr [AddBackgroundTasks [task_a, task_b]]"

definition quiet_task :: Brokkr where
  "quiet_task = NewBrokkr [AddBackgroundTasks [task_n]]"

section \<open>Invariants of a run\<close>

text \<open>
  An orchestrator as \<open>NewBrokkr\<close> builds it, stopped already or not: it has its cancel
  function, and its main context is live or cancelled.
\<close>

definition constructed :: "Brokkr \<Rightarrow> bool" where
  "constructed c =
     (mainContextCancel c \<and> (Err (mainContext c) = None \<or> Err (mainContext c) = Some Canceled))"

text \<open>The error of the group is the first error that was returned to it.\<close>

definition inv_first :: "state \<Rightarrow> bool" where
  "inv_first s = (groupErr s = (case submitted s of [] \<Rightarrow> None | e # _ \<Rightarrow> Some e))"

text \<open>
  The context of the group is done once the group has an error, once the main context
  is cancelled, and once the unit that waits for a signal has returned.
\<close>

definition inv_ctx :: "state \<Rightarrow> bool" where
  "inv_ctx s =
     ((groupErr s \<noteq> None \<longrightarrow> Err (TaskErrorGroupCtx s) \<noteq> None)
      \<and> (Err (mainContext (brokkr s)) \<noteq> None \<longrightarrow> Err (TaskErrorGroupCtx s) \<noteq> None)
      \<and> (coord s = CoordReturned \<and> mainContextCancel (brokkr s)
           \<longrightarrow> Err (TaskErrorGroupCtx s) \<noteq> None))"

text \<open>
  The units follow the loop: the tasks of the units spawned and the tasks still to come
  are the tasks of the orchestrator; \<open>Start\<close> returns only when all units have returned,
  and with what \<open>Start_return\<close> makes of the error of the group.
\<close>

definition inv_pc :: "state \<Rightarrow> bool" where
  "inv_pc s =
     (case pc s of
        Looping rest \<Rightarrow>
          map task (tunits s) @ rest = backgroundTasks (brokkr s) \<and> coord s = CoordNotSpawned
      | Waiting \<Rightarrow>
          map task (tunits s) = backgroundTasks (brokkr s) \<and> coord s \<noteq> CoordNotSpawned
          \<and> notified s
      | Returned r \<Rightarrow>
          map task (tunits s) = backgroundTasks (brokkr s) \<and> all_returned s
          \<and> r = Start_return (groupErr s))"

text \<open>Once a unit exists the range variable has a value.\<close>

definition inv_t :: "state \<Rightarrow> bool" where
  "inv_t s = (tunits s \<noteq> [] \<longrightarrow> loopvar_t s \<noteq> None)"

text \<open>The main context and the context of the group are live or cancelled.\<close>

definition inv_err :: "state \<Rightarrow> bool" where
  "inv_err s =
     ((Err (mainContext (brokkr s)) = None \<or> Err (mainContext (brokkr s)) = Some Canceled)
      \<and> (Err (TaskErrorGroupCtx s) = None \<or> Err (TaskErrorGroupCtx s) = Some Canceled))"

definition reach_inv :: "state \<Rightarrow> bool" where
  "reach_inv s = (inv_first s \<and> inv_ctx s \<and> inv_pc s \<and> inv_t s)"

definition unit_returned :: "units \<Rightarrow> bool" where
  "unit_returned u = (startU u = StartReturned \<and> stopU u = StopReturned)"

text \<open>What the steps of \<open>finish_unit\<close> leave as it is.\<close>

definition same_globals :: "state \<Rightarrow> state \<Rightarrow> bool" where
  "same_globals s s' =
     (pc s' = pc s \<and> coord s' = coord s \<and> groupErr s' = groupErr s
      \<and> length (tunits s') = length (tunits s) \<and> loopvar_t s' = loopvar_t s
      \<and> TaskErrorGroupCtx s' = TaskErrorGroupCtx s
      \<and> (\<forall>j < length (tunits s). unit_returned (tunits s ! j) \<longrightarrow> unit_returned (tunits s' ! j)))"

fun stop_phase :: "stop_unit \<Rightarrow> nat" where
  "stop_phase StopWaiting = 0"
| "stop_phase (StopRunning ctx) = 1"
| "stop_phase StopReturned = 2"

text \<open>
  The calls of \<open>OnStop\<close> of task \<open>i\<close> follow its stop unit: none while it waits, one while
  \<open>OnStop\<close> runs, and one after it has returned unless it returned the UUID error.
\<close>

definition inv_count :: "nat \<Rightarrow> bool \<Rightarrow> state \<Rightarrow> bool" where
  "inv_count i failed s =
     (if i < length (tunits s)
      then (stop_phase (stopU (tunits s ! i)) = 0 \<longrightarrow> OnStop_count i s = 0)
         \<and> (stop_phase (stopU (tunits s ! i)) = 1 \<longrightarrow> OnStop_count i s = 1)
         \<and> (stop_phase (stopU (tunits s ! i)) = 2 \<longrightarrow>
               OnStop_count i s = 1 \<or> (failed \<and> OnStop_count i s = 0))
      else OnStop_count i s = 0)"

definition uuid_failed :: "nat \<Rightarrow> event list \<Rightarrow> bool" where
  "uuid_failed i sched = (\<exists>e. StopWake i (Inl e) \<in> set sched)"

text \<open>A further call of \<open>Stop()\<close> has nothing left to do.\<close>

definition stopped :: "state \<Rightarrow> bool" where
  "stopped s = (mainContextCancel (brokkr s) \<longrightarrow> Err (mainContext (brokkr s)) \<noteq> None)"

section \<open>Runs, step by step\<close>

lemmas ctx_defs = Background_def cancel_def WithCancel_def WithValue_def Value_def
  WithTimeout_def expire_def

lemmas step_defs = group_return_def cancel_stop_def expire_stop_def
  cancel_children_def call_Stop_def Stop_def all_returned_def main_step_def
  signal_step_def tick_step_def stop_wake_def stop_return_def start_return_def
  coord_ctx_done_def coord_interrupt_def createChildContext_def IsCriticalToStop_def Let_def

lemmas demo_defs = NewBrokkr_def AddBackgroundTasks_def SetForceStopTimeout_def Second_def init_def
  Start_def Start_result_def Start_return_def OnStop_count_def uuid_error_def

lemma run_Nil [simp]: "run [] s = s"
  by (simp add: run_def)

lemma run_Cons [simp]: "run (e # es) s = run es (step e s)"
  by (simp add: run_def)

lemma run_append: "run (xs @ ys) s = run ys (run xs s)"
  by (simp add: run_def)

section \<open>Invariants hold in every run\<close>

lemmas splits = option.splits sum.splits stop_unit.splits main_pc.splits list.splits
  prod.splits if_splits

lemma step_fixed:
  "signals (brokkr (step e s)) = signals (brokkr s)
   \<and> stopTimeout (brokkr (step e s)) = stopTimeout (brokkr s)
   \<and> backgroundTasks (brokkr (step e s)) = backgroundTasks (brokkr s)
   \<and> mainContextCancel (brokkr (step e s)) = mainContextCancel (brokkr s)"
  by (cases e) (simp_all add: step_defs ctx_defs split: splits)

lemma step_ctx_done:
  "Err (TaskErrorGroupCtx s) \<noteq> None \<Longrightarrow> Err (TaskErrorGroupCtx (step e s)) \<noteq> None"
  by (cases e) (auto simp add: step_defs ctx_defs split: splits)

lemma step_groupErr:
  "groupErr s = Some x \<Longrightarrow> groupErr (step e s) = Some x"
  by (cases e) (auto simp add: step_defs ctx_defs split: splits)

lemma inv_first_init: "inv_first (init c)"
  by (simp add: inv_first_def init_def)

lemma inv_first_step: "inv_first s \<Longrightarrow> inv_first (step e s)"
  by (cases e) (auto simp add: inv_first_def step_defs ctx_defs split: splits)

lemma inv_ctx_init: "inv_ctx (init c)"
  by (simp add: inv_ctx_def init_def ctx_defs)

lemma inv_ctx_step: "inv_ctx s \<Longrightarrow> inv_ctx (step e s)"
  by (cases e) (auto simp add: inv_ctx_def step_defs ctx_defs split: splits)

lemma inv_t_init: "inv_t (init c)"
  by (simp add: inv_t_def init_def)

lemma inv_t_step: "inv_t s \<Longrightarrow> inv_t (step e s)"
  by (cases e) (auto simp add: inv_t_def step_defs ctx_defs split: splits)

lemma inv_pc_init: "inv_pc (init c)"
  by (simp add: inv_pc_def init_def ctx_defs)

lemma map_task_update [simp]:
  "i < length xs \<Longrightarrow> map task (xs[i := (xs ! i)\<lparr>stopU := v\<rparr>]) = map task xs"
  "i < length xs \<Longrightarrow> map task (xs[i := (xs ! i)\<lparr>startU := w\<rparr>]) = map task xs"
  by (simp_all add: map_update list_update_same_conv)

lemma map_task_map [simp]:
  "map task (map (\<lambda>u. u\<lparr>stopU := f (stopU u)\<rparr>) xs) = map task xs"
  by (induction xs) simp_all

lemma all_returned_nth:
  "all_returned s \<Longrightarrow> i < length (tunits s) \<Longrightarrow>
     startU (tunits s ! i) = StartReturned \<and> stopU (tunits s ! i) = StopReturned"
  by (simp add: all_returned_def list_all_length)

lemma all_returned_CallStop: "all_returned s \<Longrightarrow> all_returned (step CallStop s)"
  by (auto simp: all_returned_def step_defs ctx_defs list_all_iff split: splits)

lemma all_returned_Tick: "all_returned s \<Longrightarrow> all_returned (step (Tick d) s)"
  by (auto simp: all_returned_def step_defs ctx_defs list_all_iff split: splits)

lemma returned_step:
  assumes "all_returned s" "pc s = Returned r"
  shows "all_returned (step e s) \<and> pc (step e s) = Returned r \<and> groupErr (step e s) = groupErr s
     \<and> map task (tunits (step e s)) = map task (tunits s)"
proof (cases e)
  case CallStop
  then show ?thesis using assms all_returned_CallStop [of s]
    by (auto simp: step_defs ctx_defs split: splits)
next
  case (Tick d)
  then show ?thesis using assms all_returned_Tick [of s d]
    by (auto simp: step_defs ctx_defs split: splits)
next
  case (StopWake i u)
  then show ?thesis using assms all_returned_nth [of s i]
    by (auto simp: step_defs ctx_defs split: splits)
next
  case (StopReturn i r)
  then show ?thesis using assms all_returned_nth [of s i]
    by (auto simp: step_defs ctx_defs split: splits)
next
  case (StartReturn i r)
  then show ?thesis using assms all_returned_nth [of s i]
    by (auto simp: step_defs ctx_defs split: splits)
next
  case CoordCtxDone
  then show ?thesis using assms by (auto simp: coord_ctx_done_def all_returned_def)
next
  case CoordInterrupt
  then show ?thesis using assms by (auto simp: coord_interrupt_def all_returned_def)
next
  case Main
  then show ?thesis using assms by (auto simp: main_step_def)
next
  case (Signal sig)
  then show ?thesis using assms by (auto simp: signal_step_def all_returned_def)
qed

lemma inv_pc_step:
  assumes "inv_pc s"
  shows "inv_pc (step e s)"
proof (cases "pc s")
  case (Returned r)
  then show ?thesis using assms returned_step [of s r e] step_fixed [of e s]
    by (auto simp: inv_pc_def)
next
  case Waiting
  then show ?thesis using assms
    by (cases e) (auto simp add: inv_pc_def step_defs ctx_defs comp_def split: splits)
next
  case (Looping rest)
  then show ?thesis using assms
    by (cases e) (auto simp add: inv_pc_def step_defs ctx_defs comp_def split: splits)
qed

lemma inv_err_init: "constructed c \<Longrightarrow> inv_err (init c)"
  by (auto simp add: inv_err_def constructed_def init_def ctx_defs)

lemma inv_err_step: "inv_err s \<Longrightarrow> inv_err (step e s)"
  by (cases e) (auto simp add: inv_err_def step_defs ctx_defs split: splits)

lemma reach_inv_init: "reach_inv (init c)"
  by (simp add: reach_inv_def inv_first_init inv_ctx_init inv_pc_init inv_t_init)

lemma reach_inv_step: "reach_inv s \<Longrightarrow> reach_inv (step e s)"
  by (simp add: reach_inv_def inv_first_step inv_ctx_step inv_pc_step inv_t_step)

lemma reach_inv_run: "reach_inv s \<Longrightarrow> reach_inv (run sched s)"
  by (induction sched arbitrary: s) (simp_all add: reach_inv_step)

lemma inv_err_run: "inv_err s \<Longrightarrow> inv_err (run sched s)"
  by (induction sched arbitrary: s) (simp_all add: inv_err_step)

lemma run_ctx_done:
  "Err (TaskErrorGroupCtx s) \<noteq> None \<Longrightarrow> Err (TaskErrorGroupCtx (run sched s)) \<noteq> None"
proof (induction sched arbitrary: s)
  case Nil
  then show ?case by simp
next
  case (Cons e es)
  have "Err (TaskErrorGroupCtx (step e s)) \<noteq> None"
    using Cons.prems by (rule step_ctx_done)
  then show ?case using Cons.IH [of "step e s"] by simp
qed

lemma run_groupErr: "groupErr s = Some x \<Longrightarrow> groupErr (run sched s) = Some x"
  by (induction sched arbitrary: s) (simp_all add: step_groupErr)

lemma run_fixed:
  "signals (brokkr (run sched s)) = signals (brokkr s)
   \<and> stopTimeout (brokkr (run sched s)) = stopTimeout (brokkr s)
   \<and> backgroundTasks (brokkr (run sched s)) = backgroundTasks (brokkr s)
   \<and> mainContextCancel (brokkr (run sched s)) = mainContextCancel (brokkr s)"
  by (induction sched arbitrary: s) (simp_all add: step_fixed)

subsection \<open>The loop and the units run to their end\<close>

lemma run_loop:
  "pc s = Looping rest \<Longrightarrow>
     pc (run (replicate (Suc (length rest)) Main) s) = Waiting
     \<and> groupErr (run (replicate (Suc (length rest)) Main) s) = groupErr s"
proof (induction rest arbitrary: s)
  case Nil
  then show ?case by (simp add: main_step_def)
next
  case (Cons p rest)
  have "pc (step Main s) = Looping rest" "groupErr (step Main s) = groupErr s"
    using Cons.prems by (simp_all add: main_step_def)
  then show ?case using Cons.IH [of "step Main s"] by simp
qed

lemma same_globals_refl: "same_globals s s"
  by (simp add: same_globals_def)

lemma same_globals_trans: "same_globals s s' \<Longrightarrow> same_globals s' s'' \<Longrightarrow> same_globals s s''"
  by (simp add: same_globals_def)

lemma not_StartRunning: "(u \<noteq> StartRunning) = (u = StartReturned)"
  by (cases u) simp_all

lemma start_nil_globals:
  "same_globals s (step (StartReturn i None) s)
   \<and> (i < length (tunits s) \<longrightarrow>
        startU (tunits (step (StartReturn i None) s) ! i) = StartReturned
        \<and> stopU (tunits (step (StartReturn i None) s) ! i) = stopU (tunits s ! i))"
  by (auto simp: same_globals_def unit_returned_def step_defs nth_list_update not_StartRunning
      split: splits)

lemma stop_wake_globals:
  assumes "Err (TaskErrorGroupCtx s) \<noteq> None" "loopvar_t s \<noteq> None"
  shows "same_globals s (step (StopWake i (Inr u)) s)
   \<and> (i < length (tunits s) \<longrightarrow>
        startU (tunits (step (StopWake i (Inr u)) s) ! i) = startU (tunits s ! i)
        \<and> stopU (tunits (step (StopWake i (Inr u)) s) ! i) \<noteq> StopWaiting)"
  using assms
  by (auto simp: same_globals_def unit_returned_def step_defs nth_list_update split: splits)

lemma stop_nil_globals:
  "same_globals s (step (StopReturn i None) s)
   \<and> (i < length (tunits s) \<longrightarrow>
        startU (tunits (step (StopReturn i None) s) ! i) = startU (tunits s ! i)
        \<and> (stopU (tunits s ! i) \<noteq> StopWaiting \<longrightarrow>
             stopU (tunits (step (StopReturn i None) s) ! i) = StopReturned))"
  by (auto simp: same_globals_def unit_returned_def step_defs nth_list_update split: splits)

lemma finish_unit_returned:
  assumes "Err (TaskErrorGroupCtx s) \<noteq> None" "loopvar_t s \<noteq> None" "i < length (tunits s)"
  shows "same_globals s (run (finish_unit i) s)
     \<and> unit_returned (tunits (run (finish_unit i) s) ! i)"
proof -
  define s1 where "s1 = step (StartReturn i None) s"
  define s2 where "s2 = step (StopWake i (Inr ''uuid'')) s1"
  define s3 where "s3 = step (StopReturn i None) s2"
  have g1: "same_globals s s1" and u1: "startU (tunits s1 ! i) = StartReturned"
    using start_nil_globals [of s i] assms(3) by (simp_all add: s1_def)
  have c1: "Err (TaskErrorGroupCtx s1) \<noteq> None" "loopvar_t s1 \<noteq> None" "i < length (tunits s1)"
    using g1 assms by (simp_all add: same_globals_def)
  have g2: "same_globals s1 s2" and u2: "startU (tunits s2 ! i) = StartReturned"
    and w2: "stopU (tunits s2 ! i) \<noteq> StopWaiting"
    using stop_wake_globals [OF c1(1) c1(2), of i "''uuid''"] c1(3) u1 by (simp_all add: s2_def)
  have c2: "i < length (tunits s2)"
    using g2 c1(3) by (simp add: same_globals_def)
  have g3: "same_globals s2 s3" and u3: "startU (tunits s3 ! i) = StartReturned"
    and w3: "stopU (tunits s3 ! i) = StopReturned"
    using stop_nil_globals [of s2 i] c2 u2 w2 by (simp_all add: s3_def)
  have "same_globals s s3"
    using g1 g2 g3 by (blast intro: same_globals_trans)
  moreover have "run (finish_unit i) s = s3"
    by (simp add: finish_unit_def s1_def s2_def s3_def)
  ultimately show ?thesis using u3 w3 by (simp add: unit_returned_def)
qed

lemma finish_units:
  assumes "Err (TaskErrorGroupCtx s) \<noteq> None" "inv_t s" "k \<le> length (tunits s)"
  shows "same_globals s (run (concat (map finish_unit [0..<k])) s)
     \<and> (\<forall>j<k. unit_returned (tunits (run (concat (map finish_unit [0..<k])) s) ! j))"
  using assms(3)
proof (induction k)
  case 0
  then show ?case by (simp add: same_globals_refl)
next
  case (Suc k)
  define s' where "s' = run (concat (map finish_unit [0..<k])) s"
  have g: "same_globals s s'" and r: "\<forall>j<k. unit_returned (tunits s' ! j)"
    using Suc by (simp_all add: s'_def)
  have ne: "tunits s \<noteq> []" using Suc.prems by auto
  have c: "Err (TaskErrorGroupCtx s') \<noteq> None" "loopvar_t s' \<noteq> None" "k < length (tunits s')"
    using g assms(1,2) ne Suc.prems by (simp_all add: same_globals_def inv_t_def)
  have f: "same_globals s' (run (finish_unit k) s')"
    and u: "unit_returned (tunits (run (finish_unit k) s') ! k)"
    using finish_unit_returned [OF c] by simp_all
  have eq: "run (concat (map finish_unit [0..<Suc k])) s = run (finish_unit k) s'"
    by (simp add: run_append s'_def)
  have "\<forall>j<Suc k. unit_returned (tunits (run (finish_unit k) s') ! j)"
  proof (intro allI impI)
    fix j assume "j < Suc k"
    show "unit_returned (tunits (run (finish_unit k) s') ! j)"
    proof (cases "j = k")
      case True
      then show ?thesis using u by simp
    next
      case False
      then have "j < k" using \<open>j < Suc k\<close> by simp
      then have "unit_returned (tunits s' ! j)" "j < length (tunits s')"
        using r c(3) by simp_all
      then show ?thesis using f by (simp add: same_globals_def)
    qed
  qed
  then show ?case using same_globals_trans [OF g f] eq by simp
qed

lemma step_Returned: "pc s = Returned r \<Longrightarrow> pc (step e s) = Returned r"
  by (cases e) (auto simp: step_defs split: splits)

lemma run_Returned: "pc s = Returned r \<Longrightarrow> pc (run sched s) = Returned r"
  by (induction sched arbitrary: s) (simp_all add: step_Returned)

lemma Start_return_cancel: "Start_return (Some Canceled) = None"
  by (simp add: Start_return_def)

lemma drain_waiting:
  assumes "reach_inv s" "inv_err s" "Err (TaskErrorGroupCtx s) \<noteq> None" "pc s = Waiting"
  shows "Start_result
           (run (concat (map finish_unit [0..<length (backgroundTasks (brokkr s))])
                 @ [CoordCtxDone, Main]) s)
         = Some (Start_return (groupErr s))"
proof -
  define n where "n = length (backgroundTasks (brokkr s))"
  define s2 where "s2 = run (concat (map finish_unit [0..<n])) s"
  have len: "length (tunits s) = n" and co: "coord s \<noteq> CoordNotSpawned"
    using assms(1,4) by (auto simp: reach_inv_def inv_pc_def n_def dest: arg_cong [where f = length])
  have g: "same_globals s s2" and r: "\<forall>j<n. unit_returned (tunits s2 ! j)"
    using finish_units [OF assms(3), of n] assms(1) len by (simp_all add: s2_def reach_inv_def)
  have all: "list_all (\<lambda>u. startU u = StartReturned \<and> stopU u = StopReturned) (tunits s2)"
    using r g len by (simp add: list_all_length same_globals_def unit_returned_def)
  have pc2: "pc s2 = Waiting" and co2: "coord s2 \<noteq> CoordNotSpawned"
    and ge2: "groupErr s2 = groupErr s" and ctx2: "TaskErrorGroupCtx s2 = TaskErrorGroupCtx s"
    using g assms(4) co by (simp_all add: same_globals_def)
  have err: "Err (TaskErrorGroupCtx s) = Some Canceled"
    using assms(2,3) by (auto simp: inv_err_def)
  have "Start_result (step Main (step CoordCtxDone s2)) = Some (Start_return (groupErr s))"
    using all pc2 co2 ge2 ctx2 err
    by (cases "coord s2")
      (auto simp: Start_result_def step_defs Start_return_cancel Start_return_def split: splits)
  then show ?thesis by (simp add: run_append s2_def n_def)
qed

lemma drain_returns:
  assumes "reach_inv s" "inv_err s" "Err (TaskErrorGroupCtx s) \<noteq> None"
  shows "Start_result (run (drain s) s) = Some (Start_return (groupErr s))"
proof (cases "pc s")
  case (Looping rest)
  define s1 where "s1 = run (replicate (Suc (length rest)) Main) s"
  have p: "pc s1 = Waiting" "groupErr s1 = groupErr s"
    unfolding s1_def using run_loop [OF Looping] by blast+
  have i1: "reach_inv s1"
    unfolding s1_def by (rule reach_inv_run [OF assms(1)])
  have i2: "inv_err s1"
    unfolding s1_def by (rule inv_err_run [OF assms(2)])
  have i3: "Err (TaskErrorGroupCtx s1) \<noteq> None"
    unfolding s1_def by (rule run_ctx_done [OF assms(3)])
  have b: "backgroundTasks (brokkr s1) = backgroundTasks (brokkr s)"
    unfolding s1_def using run_fixed by blast
  show ?thesis
    using drain_waiting [OF i1 i2 i3 p(1)] p(2) b Looping
    by (simp add: drain_def run_append s1_def del: run_Cons replicate.simps)
next
  case Waiting
  then show ?thesis using drain_waiting [OF assms Waiting] by (simp add: drain_def)
next
  case (Returned r)
  then have "r = Start_return (groupErr s)"
    using assms(1) by (simp add: reach_inv_def inv_pc_def)
  then show ?thesis using run_Returned [OF Returned, of "drain s"]
    by (simp add: Start_result_def)
qed

subsection \<open>Shutting down\<close>

lemma only_cancellations_nil:
  assumes "inv_first s" "only_cancellations s"
  shows "Start_return (groupErr s) = None"
  using assms
  by (cases "submitted s") (simp_all add: inv_first_def only_cancellations_def Start_return_def)

lemma CallStop_effect:
  "groupErr (step CallStop s) = groupErr s \<and> submitted (step CallStop s) = submitted s
   \<and> pc (step CallStop s) = pc s"
  by (auto simp: step_defs ctx_defs split: splits)

lemma CallStop_ctx_done:
  assumes "inv_ctx s" "mainContextCancel (brokkr s)"
  shows "Err (TaskErrorGroupCtx (step CallStop s)) \<noteq> None"
  using assms by (auto simp: inv_ctx_def step_defs ctx_defs split: splits)

lemma signal_interrupt:
  assumes "reach_inv s" "pc s = Waiting" "mainContextCancel (brokkr s)"
    "sig \<in> set (signals (brokkr s))"
  shows "Err (TaskErrorGroupCtx (step CoordInterrupt (step (Signal sig) s))) \<noteq> None
     \<and> groupErr (step CoordInterrupt (step (Signal sig) s)) = groupErr s
     \<and> submitted (step CoordInterrupt (step (Signal sig) s)) = submitted s"
proof (cases "coord s")
  case CoordNotSpawned
  then show ?thesis using assms by (simp add: reach_inv_def inv_pc_def)
next
  case CoordSelecting
  then show ?thesis using assms
    by (auto simp: reach_inv_def inv_pc_def inv_ctx_def step_defs ctx_defs split: splits)
next
  case CoordReturned
  then show ?thesis using assms
    by (auto simp: reach_inv_def inv_pc_def inv_ctx_def step_defs ctx_defs split: splits)
qed

lemma reach_init_run:
  "reach_inv (run sched (init c))"
  by (rule reach_inv_run [OF reach_inv_init])

lemma inv_err_init_run:
  "constructed c \<Longrightarrow> inv_err (run sched (init c))"
  by (rule inv_err_run [OF inv_err_init])

lemma brokkr_init [simp]: "brokkr (init c) = c"
  by (simp add: init_def)

lemma Start_append:
  "Start c (xs @ ys) = Start_result (run ys (run xs (init c)))"
  by (simp add: Start_def run_append)

lemma critical_return_first:
  assumes "i < length (tunits s)" "startU (tunits s ! i) = StartRunning"
    "IsCriticalToStop (task (tunits s ! i))" "groupErr s = None"
  shows "groupErr (step (StartReturn i (Some E)) s) = Some E
     \<and> Err (TaskErrorGroupCtx (step (StartReturn i (Some E)) s)) \<noteq> None"
  using assms by (auto simp: start_return_def group_return_def cancel_def)

lemma returned_result:
  assumes "reach_inv s" "Start_result s = Some r"
  shows "r = Start_return (groupErr s)"
  using assms
  by (auto simp: Start_result_def reach_inv_def inv_pc_def split: main_pc.splits)

lemma noncritical_step:
  assumes "i < length (tunits s) \<longrightarrow> \<not> IsCriticalToStop (task (tunits s ! i))"
  shows "step (StartReturn i (Some e)) s = step (StartReturn i None) s"
  using assms by (simp add: start_return_def)

subsection \<open>Counting the calls of OnStop\<close>

lemma stop_phase_cancel [simp]: "stop_phase (cancel_stop u) = stop_phase u"
  by (cases u) (simp_all add: cancel_stop_def)

lemma stop_phase_expire [simp]: "stop_phase (expire_stop n u) = stop_phase u"
  by (cases u) (simp_all add: expire_stop_def)

lemma stop_phase_cases: "stop_phase u = 0 \<or> stop_phase u = 1 \<or> stop_phase u = 2"
  by (cases u) simp_all

lemma inv_count_init: "inv_count i False (init c)"
  by (simp add: inv_count_def init_def OnStop_count_def)

lemma group_return_frame [simp]:
  "OnStop_calls (group_return r s) = OnStop_calls s"
  "tunits (group_return r s) = tunits s"
  by (simp_all add: group_return_def split: option.splits)

lemma OnStop_count_frame:
  "OnStop_calls s' = OnStop_calls s \<Longrightarrow> OnStop_count i s' = OnStop_count i s"
  by (simp add: OnStop_count_def)

lemma inv_count_frame:
  assumes "inv_count i f s" "OnStop_calls s' = OnStop_calls s"
    "length (tunits s') = length (tunits s)"
    "i < length (tunits s) \<Longrightarrow> stop_phase (stopU (tunits s' ! i)) = stop_phase (stopU (tunits s ! i))"
  shows "inv_count i f s'"
  using assms(1,3,4) OnStop_count_frame [OF assms(2), of i]
  by (cases "i < length (tunits s)") (simp_all add: inv_count_def)

lemma inv_count_CallStop: "inv_count i f s \<Longrightarrow> inv_count i f (step CallStop s)"
  by (erule inv_count_frame)
    (simp_all add: call_Stop_def Stop_def cancel_children_def)

lemma inv_count_Tick: "inv_count i f s \<Longrightarrow> inv_count i f (step (Tick d) s)"
  by (erule inv_count_frame) (simp_all add: tick_step_def)

lemma inv_count_Signal: "inv_count i f s \<Longrightarrow> inv_count i f (step (Signal sig) s)"
  by (erule inv_count_frame) (simp_all add: signal_step_def)

lemma inv_count_CoordCtxDone: "inv_count i f s \<Longrightarrow> inv_count i f (step CoordCtxDone s)"
  by (erule inv_count_frame) (simp_all add: coord_ctx_done_def)

lemma inv_count_CoordInterrupt: "inv_count i f s \<Longrightarrow> inv_count i f (step CoordInterrupt s)"
  by (erule inv_count_frame)
    (simp_all add: coord_interrupt_def call_Stop_def Stop_def cancel_children_def)

lemma inv_count_StartReturn: "inv_count i f s \<Longrightarrow> inv_count i f (step (StartReturn j r) s)"
  by (erule inv_count_frame) (simp_all add: start_return_def nth_list_update)

lemma inv_count_Main: "inv_count i f s \<Longrightarrow> inv_count i f (step Main s)"
  by (cases "pc s")
    (auto simp: inv_count_def OnStop_count_def main_step_def nth_append split: list.splits)

lemma inv_count_StopReturn:
  assumes "inv_count i f s"
  shows "inv_count i f (step (StopReturn j r) s)"
proof (cases "j < length (tunits s)")
  case False
  then show ?thesis using assms by (simp add: stop_return_def)
next
  case True
  show ?thesis
  proof (cases "stopU (tunits s ! j)")
    case StopWaiting
    then show ?thesis using assms True by (simp add: stop_return_def)
  next
    case StopReturned
    then show ?thesis using assms True by (simp add: stop_return_def)
  next
    case (StopRunning ctx)
    then have st: "stop_return j r s
        = group_return r (s\<lparr>tunits := (tunits s)[j := (tunits s ! j)\<lparr>stopU := StopReturned\<rparr>]\<rparr>)"
      using True by (simp add: stop_return_def)
    show ?thesis
    proof (cases "j = i")
      case False
      show ?thesis
        by (rule inv_count_frame [OF assms]) (simp_all add: st False nth_list_update)
    next
      case True
      have sti: "stop_return i r s
        = group_return r (s\<lparr>tunits := (tunits s)[i := (tunits s ! i)\<lparr>stopU := StopReturned\<rparr>]\<rparr>)"
        using st True by simp
      have "OnStop_count i s = 1"
        using assms StopRunning \<open>j < length (tunits s)\<close> True by (simp add: inv_count_def)
      then show ?thesis
        using True \<open>j < length (tunits s)\<close>
        by (simp add: inv_count_def sti OnStop_count_def)
    qed
  qed
qed

lemma inv_count_StopWake_Inr:
  assumes "inv_count i f s"
  shows "inv_count i f (step (StopWake j (Inr k)) s)"
proof (cases "j < length (tunits s) \<and> stopU (tunits s ! j) = StopWaiting
    \<and> Err (TaskErrorGroupCtx s) \<noteq> None \<and> loopvar_t s \<noteq> None")
  case False
  then have "step (StopWake j (Inr k)) s = s"
    by (auto simp: stop_wake_def split: option.splits)
  then show ?thesis using assms by simp
next
  case True
  then obtain t where t: "loopvar_t s = Some t" by blast
  define ctx where "ctx = WithTimeout (createChildContext (brokkr s) k (GetName t))
                           (clock s) (stopTimeout (brokkr s))"
  have st: "stop_wake j (Inr k) s
      = s\<lparr>tunits := (tunits s)[j := (tunits s ! j)\<lparr>stopU := StopRunning ctx\<rparr>],
          OnStop_calls := OnStop_calls s @ [(j, ctx)]\<rparr>"
    using True t by (simp add: stop_wake_def Let_def ctx_def)
  show ?thesis
  proof (cases "j = i")
    case False
    have "OnStop_count i (step (StopWake j (Inr k)) s) = OnStop_count i s"
      using False by (simp add: st OnStop_count_def)
    then show ?thesis using assms False
      by (cases "i < length (tunits s)") (simp_all add: inv_count_def st nth_list_update)
  next
    case j: True
    have sti: "stop_wake i (Inr k) s
      = s\<lparr>tunits := (tunits s)[i := (tunits s ! i)\<lparr>stopU := StopRunning ctx\<rparr>],
          OnStop_calls := OnStop_calls s @ [(i, ctx)]\<rparr>"
      using st j by simp
    have "OnStop_count i s = 0"
      using assms True j by (simp add: inv_count_def)
    then have "OnStop_count i (stop_wake i (Inr k) s) = 1"
      by (simp add: sti OnStop_count_def)
    then show ?thesis using j True by (simp add: inv_count_def sti)
  qed
qed

lemma inv_count_StopWake_Inl:
  assumes "inv_count i f s"
  shows "inv_count i (f \<or> j = i) (step (StopWake j (Inl e)) s)"
proof (cases "j < length (tunits s) \<and> stopU (tunits s ! j) = StopWaiting
    \<and> Err (TaskErrorGroupCtx s) \<noteq> None")
  case False
  then have "step (StopWake j (Inl e)) s = s"
    by (auto simp: stop_wake_def)
  then show ?thesis using assms by (auto simp: inv_count_def split: if_splits)
next
  case True
  then have st: "stop_wake j (Inl e) s
      = group_return (Some (uuid_error e))
          (s\<lparr>tunits := (tunits s)[j := (tunits s ! j)\<lparr>stopU := StopReturned\<rparr>]\<rparr>)"
    by (simp add: stop_wake_def)
  have c: "OnStop_count i (step (StopWake j (Inl e)) s) = OnStop_count i s"
    by (simp add: st OnStop_count_def)
  show ?thesis
  proof (cases "j = i")
    case False
    then show ?thesis using assms c
      by (cases "i < length (tunits s)") (simp_all add: inv_count_def st nth_list_update)
  next
    case j: True
    have sti: "stop_wake i (Inl e) s
      = group_return (Some (uuid_error e))
          (s\<lparr>tunits := (tunits s)[i := (tunits s ! i)\<lparr>stopU := StopReturned\<rparr>]\<rparr>)"
      using st j by simp
    have "OnStop_count i s = 0"
      using assms True j by (simp add: inv_count_def)
    then show ?thesis using j True c by (simp add: inv_count_def sti)
  qed
qed

lemma inv_count_step:
  "inv_count i f s \<Longrightarrow> inv_count i (f \<or> (\<exists>e. ev = StopWake i (Inl e))) (step ev s)"
proof (cases ev)
  case (StopWake j u)
  assume a: "inv_count i f s"
  show ?thesis
  proof (cases u)
    case (Inl e)
    then show ?thesis using inv_count_StopWake_Inl [OF a, of j e] StopWake
      by (auto simp: inv_count_def split: if_splits)
  next
    case (Inr k)
    then show ?thesis using inv_count_StopWake_Inr [OF a, of j k] StopWake by simp
  qed
qed (simp_all add: inv_count_CallStop inv_count_Tick inv_count_Signal inv_count_CoordCtxDone
    inv_count_CoordInterrupt inv_count_StartReturn inv_count_Main inv_count_StopReturn
    del: step.simps)

lemma inv_count_run: "inv_count i (uuid_failed i sched) (run sched (init c))"
proof (induction sched rule: rev_induct)
  case Nil
  then show ?case by (simp add: uuid_failed_def inv_count_init)
next
  case (snoc ev sched)
  have "uuid_failed i (sched @ [ev]) = (uuid_failed i sched \<or> (\<exists>e. ev = StopWake i (Inl e)))"
    by (auto simp: uuid_failed_def)
  then show ?case using inv_count_step [OF snoc.IH, of ev]
    by (simp add: run_append del: step.simps)
qed

lemma OnStop_count_le: "OnStop_count i (run sched (init c)) \<le> 1"
  using inv_count_run [of i sched c]
    stop_phase_cases [of "stopU (tunits (run sched (init c)) ! i)"]
  by (auto simp: inv_count_def split: if_splits)

subsection \<open>Stop after Stop\<close>

lemma stopped_CallStop: "stopped (step CallStop s)"
  by (auto simp: stopped_def step_defs ctx_defs split: splits)

lemma stopped_step: "stopped s \<Longrightarrow> stopped (step e s)"
  by (cases e) (auto simp: stopped_def step_defs ctx_defs split: splits)

lemma stopped_run: "stopped s \<Longrightarrow> stopped (run sched s)"
  by (induction sched arbitrary: s) (simp_all add: stopped_step)

lemma stopped_noop: "stopped s \<Longrightarrow> step CallStop s = s"
  by (auto simp: stopped_def step_defs ctx_defs split: splits)

lemma constructed_NewBrokkr: "constructed (NewBrokkr [])"
  by (simp add: constructed_def NewBrokkr_def ctx_defs)

lemma constructed_options:
  "constructed c \<Longrightarrow> constructed (SetForceStopTimeout d c)"
  "constructed c \<Longrightarrow> constructed (AddBackgroundTasks bt c)"
  "constructed c \<Longrightarrow> constructed (fst (Stop c))"
  by (auto simp: constructed_def SetForceStopTimeout_def AddBackgroundTasks_def Stop_def cancel_def)

lemma Stop_then_drain:
  assumes "constructed c" and "only_cancellations (run sched (init c))"
  shows "Start c (sched @ CallStop # drain (run (sched @ [CallStop]) (init c))) = Some None"
proof -
  define s where "s = run sched (init c)"
  have i: "reach_inv s" and ie: "inv_err s"
    using assms(1) by (simp_all add: s_def reach_init_run inv_err_init_run)
  have nil: "Start_return (groupErr s) = None"
    using i assms(2) by (simp add: only_cancellations_nil reach_inv_def s_def)
  have mc: "mainContextCancel (brokkr s)"
    using assms(1) run_fixed [of sched "init c"] by (simp_all add: s_def constructed_def)
  define s1 where "s1 = step CallStop s"
  have ic: "inv_ctx s"
    using i by (simp add: reach_inv_def)
  have "reach_inv s1"
    unfolding s1_def by (rule reach_inv_step [OF i])
  moreover have "inv_err s1"
    unfolding s1_def by (rule inv_err_step [OF ie])
  moreover have "Err (TaskErrorGroupCtx s1) \<noteq> None"
    unfolding s1_def by (rule CallStop_ctx_done [OF ic mc])
  ultimately have "Start_result (run (drain s1) s1) = Some (Start_return (groupErr s1))"
    by (rule drain_returns)
  then show ?thesis
    using nil CallStop_effect [of s] by (simp add: Start_append run_append s_def s1_def)
qed

subsection \<open>The result once the group has an error\<close>

lemma result_after_error:
  assumes "reach_inv s1" and "inv_err s1" and "groupErr s1 = Some X"
  shows "(\<forall>rest r. Start_result (run rest s1) = Some r \<longrightarrow> r = Start_return (Some X))
     \<and> Start_result (run (drain s1) s1) = Some (Start_return (Some X))"
proof -
  have d: "Err (TaskErrorGroupCtx s1) \<noteq> None"
    using assms(1,3) by (simp add: reach_inv_def inv_ctx_def)
  have a: "\<forall>rest r. Start_result (run rest s1) = Some r \<longrightarrow> r = Start_return (Some X)"
  proof (intro allI impI)
    fix rest r
    assume that: "Start_result (run rest s1) = Some r"
    have "reach_inv (run rest s1)"
      by (rule reach_inv_run [OF assms(1)])
    then have "r = Start_return (groupErr (run rest s1))"
      using that by (rule returned_result)
    then show "r = Start_return (Some X)"
      using run_groupErr [OF assms(3), of rest] by simp
  qed
  have "Start_result (run (drain s1) s1) = Some (Start_return (groupErr s1))"
    using assms(1,2) d by (rule drain_returns)
  then have b: "Start_result (run (drain s1) s1) = Some (Start_return (Some X))"
    using assms(3) by simp
  from a b show ?thesis
    by (rule conjI)
qed

section \<open>Construction\<close>

text \<open>
  C9. An orchestrator built with no options has a stop timeout of 60 seconds and the
  signals interrupt, terminate and quit, and no others. \<open>SetForceStopTimeout d\<close> sets the
  stop timeout to \<open>d\<close> and leaves the signals, the tasks and the main context with its
  cancel function as they are; applied as the last option it changes nothing but the
  stop timeout of the orchestrator built.
\<close>

theorem NewBrokkr_defaults:
  "stopTimeout (NewBrokkr []) = 60 * Second
   \<and> set (signals (NewBrokkr [])) = {SIGINT, SIGTERM, SIGQUIT}
   \<and> stopTimeout (SetForceStopTimeout d c) = d
   \<and> signals (SetForceStopTimeout d c) = signals c
   \<and> backgroundTasks (SetForceStopTimeout d c) = backgroundTasks c
   \<and> mainContext (SetForceStopTimeout d c) = mainContext c
   \<and> mainContextCancel (SetForceStopTimeout d c) = mainContextCancel c
   \<and> NewBrokkr (opts @ [SetForceStopTimeout d]) = (NewBrokkr opts)\<lparr>stopTimeout := d\<rparr>"
  by (auto simp: NewBrokkr_def SetForceStopTimeout_def)

theorem NewBrokkr_defaults_witness:
  "stopTimeout (NewBrokkr [SetForceStopTimeout 5]) = 5
   \<and> stopTimeout (NewBrokkr []) = 60000000000
   \<and> signals (NewBrokkr [SetForceStopTimeout 5]) = [SIGTERM, SIGQUIT, SIGINT]"
  using NewBrokkr_defaults [of 5 "NewBrokkr []" "[]"]
  by (simp add: NewBrokkr_def SetForceStopTimeout_def Second_def)

section \<open>The result of Start\<close>

text \<open>
  C1. Take any orchestrator that \<open>NewBrokkr\<close> has built, with any tasks, and any run in
  which every error that a unit has returned to the group is a cancellation. If
  \<open>Start\<close> has returned in that run, it has returned nil. And \<open>Start\<close> does return
  nil: when \<open>Stop()\<close> is called after the run and every unit then runs to its end, and
  also when \<open>Start\<close> is waiting, one of its signals arrives and is taken from the
  channel, and every unit then runs to its end.
\<close>

theorem graceful_shutdown_returns_nil:
  assumes "constructed c" and "only_cancellations (run sched (init c))"
  shows "(\<forall>r. Start c sched = Some r \<longrightarrow> r = None)
     \<and> Start c (sched @ CallStop # drain (run (sched @ [CallStop]) (init c))) = Some None
     \<and> (pc (run sched (init c)) = Waiting \<and> sig \<in> set (signals c) \<longrightarrow>
          Start c (sched @ Signal sig # CoordInterrupt
                   # drain (run (sched @ [Signal sig, CoordInterrupt]) (init c))) = Some None)"
proof -
  define s where "s = run sched (init c)"
  have i: "reach_inv s" and ie: "inv_err s"
    using assms(1) by (simp_all add: s_def reach_init_run inv_err_init_run)
  have nil: "Start_return (groupErr s) = None"
    using i assms(2) by (simp add: only_cancellations_nil reach_inv_def s_def)
  have mc: "mainContextCancel (brokkr s)" and sg: "signals (brokkr s) = signals c"
    using assms(1) run_fixed [of sched "init c"] by (simp_all add: s_def constructed_def)
  have a: "\<forall>r. Start c sched = Some r \<longrightarrow> r = None"
    using i nil
    by (auto simp: Start_def Start_result_def reach_inv_def inv_pc_def s_def split: main_pc.splits)
  have b: "Start c (sched @ CallStop # drain (run (sched @ [CallStop]) (init c))) = Some None"
    using assms by (rule Stop_then_drain)
  have c: "Start c (sched @ Signal sig # CoordInterrupt
                   # drain (run (sched @ [Signal sig, CoordInterrupt]) (init c))) = Some None"
    if w: "pc s = Waiting" and m: "sig \<in> set (signals c)"
  proof -
    define s2 where "s2 = step CoordInterrupt (step (Signal sig) s)"
    have d: "Err (TaskErrorGroupCtx s2) \<noteq> None" and g: "groupErr s2 = groupErr s"
      using signal_interrupt [OF i w mc] m sg by (simp_all add: s2_def)
    have "reach_inv s2"
      unfolding s2_def by (intro reach_inv_step i)
    moreover have "inv_err s2"
      unfolding s2_def by (intro inv_err_step ie)
    ultimately have "Start_result (run (drain s2) s2) = Some (Start_return (groupErr s2))"
      using d by (rule drain_returns)
    then show ?thesis using nil g by (simp add: Start_append run_append s_def s2_def)
  qed
  show ?thesis using a b c by (simp add: s_def)
qed

theorem graceful_shutdown_returns_nil_witness:
  "constructed one_task \<and> only_cancellations (run [Main, Main] (init one_task))
   \<and> Start one_task ([Main, Main] @ CallStop # drain (run ([Main, Main] @ [CallStop]) (init one_task)))
       = Some None
   \<and> Start one_task ([Main, Main] @ Signal SIGTERM # CoordInterrupt
        # drain (run ([Main, Main] @ [Signal SIGTERM, CoordInterrupt]) (init one_task))) = Some None"
proof -
  have h: "constructed one_task" "only_cancellations (run [Main, Main] (init one_task))"
    and p: "pc (run [Main, Main] (init one_task)) = Waiting" "SIGTERM \<in> set (signals one_task)"
    by (simp_all add: constructed_def only_cancellations_def task_a_def one_task_def demo_defs
        step_defs ctx_defs)
  show ?thesis
    using graceful_shutdown_returns_nil [OF h, of SIGTERM] h p by simp
qed

text \<open>
  C2 as stated fails where two critical tasks fail: the second task is critical and its
  \<open>OnStart\<close> returns the error \<open>e2\<close>, which is no cancellation, and \<open>Start\<close> returns
  \<open>e1\<close>, the error of the first.
\<close>

theorem second_critical_failure_counterexample:
  "IsCriticalToStop (backgroundTasks two_tasks ! 1)
   \<and> \<not> errors_Is (New ''e2'') Canceled
   \<and> Start two_tasks [Main, Main, Main, StartReturn 0 (Some (New ''e1'')),
        StartReturn 1 (Some (New ''e2'')), CoordCtxDone, StopWake 0 (Inr ''u1''),
        StopWake 1 (Inr ''u2''), StopReturn 0 None, StopReturn 1 None, Main]
     = Some (Some (New ''e1''))
   \<and> Some (New ''e1'') \<noteq> Some (New ''e2'')"
  by (simp add: task_a_def task_b_def two_tasks_def demo_defs step_defs ctx_defs)

text \<open>
  C2, amended. A critical task's \<open>OnStart\<close> returns an error \<open>E\<close> that is no
  cancellation. After that step the context of the group is done, so every stop unit
  can leave its wait. If no unit, the unit that waits for a signal included, has
  returned an error to the group before, then whatever happens afterwards \<open>Start\<close>, if
  it returns, returns \<open>E\<close>, and it does return \<open>E\<close> when every unit then runs to its
  end. If the first error returned to the group before was an error \<open>E0\<close> that is no
  cancellation, the same holds with \<open>E0\<close> in place of \<open>E\<close>: the first error wins.
  Nothing is said here of a run in which the first error returned before was a
  cancellation.
\<close>

theorem critical_failure_first_error_wins:
  assumes "constructed c" and "s = run sched (init c)"
    and "i < length (tunits s)" and "startU (tunits s ! i) = StartRunning"
    and "IsCriticalToStop (task (tunits s ! i))" and "\<not> errors_Is E Canceled"
  shows "Err (TaskErrorGroupCtx (step (StartReturn i (Some E)) s)) \<noteq> None
     \<and> (submitted s = [] \<longrightarrow>
          (\<forall>rest r. Start c (sched @ StartReturn i (Some E) # rest) = Some r \<longrightarrow> r = Some E)
          \<and> Start c (sched @ StartReturn i (Some E) # drain (step (StartReturn i (Some E)) s))
              = Some (Some E))
     \<and> (\<forall>E0 more. submitted s = E0 # more \<and> \<not> errors_Is E0 Canceled \<longrightarrow>
          (\<forall>rest r. Start c (sched @ StartReturn i (Some E) # rest) = Some r \<longrightarrow> r = Some E0)
          \<and> Start c (sched @ StartReturn i (Some E) # drain (step (StartReturn i (Some E)) s))
              = Some (Some E0))"
proof -
  define s1 where "s1 = step (StartReturn i (Some E)) s"
  have i0: "reach_inv s"
    unfolding assms(2) by (rule reach_init_run)
  have i1: "reach_inv s1"
    unfolding s1_def by (rule reach_inv_step [OF i0])
  have e1: "inv_err s1"
    unfolding s1_def assms(2) by (intro inv_err_step inv_err_init_run assms(1))
  have first: "groupErr s = (case submitted s of [] \<Rightarrow> None | e # _ \<Rightarrow> Some e)"
    using i0 by (simp add: reach_inv_def inv_first_def)
  have st: "Start c (sched @ StartReturn i (Some E) # rest) = Start_result (run rest s1)" for rest
    by (simp add: Start_append s1_def assms(2))
  have res: "(\<forall>rest r. Start c (sched @ StartReturn i (Some E) # rest) = Some r \<longrightarrow> r = Some X)
      \<and> Start c (sched @ StartReturn i (Some E) # drain s1) = Some (Some X)"
    if g: "groupErr s1 = Some X" and x: "\<not> errors_Is X Canceled" for X
  proof -
    have "Start_return (Some X) = Some X"
      using x by (simp add: Start_return_def)
    then show ?thesis
      using result_after_error [OF i1 e1 g] by (simp add: st)
  qed
  have some: "\<exists>X. groupErr s1 = Some X"
  proof (cases "groupErr s")
    case None
    then show ?thesis
      using critical_return_first [OF assms(3-5) None, of E] by (simp add: s1_def)
  next
    case (Some E0)
    then show ?thesis
      using step_groupErr [OF Some, of "StartReturn i (Some E)"] by (simp add: s1_def)
  qed
  then have d: "Err (TaskErrorGroupCtx s1) \<noteq> None"
    using i1 by (auto simp: reach_inv_def inv_ctx_def)
  have a: "submitted s = [] \<longrightarrow>
      (\<forall>rest r. Start c (sched @ StartReturn i (Some E) # rest) = Some r \<longrightarrow> r = Some E)
      \<and> Start c (sched @ StartReturn i (Some E) # drain s1) = Some (Some E)"
  proof
    assume that: "submitted s = []"
    have "groupErr s = None"
      using first that by simp
    then have "groupErr s1 = Some E"
      using critical_return_first [OF assms(3-5), of E] by (simp add: s1_def)
    then show "(\<forall>rest r. Start c (sched @ StartReturn i (Some E) # rest) = Some r \<longrightarrow> r = Some E)
      \<and> Start c (sched @ StartReturn i (Some E) # drain s1) = Some (Some E)"
      using assms(6) by (rule res)
  qed
  have b: "\<forall>E0 more. submitted s = E0 # more \<and> \<not> errors_Is E0 Canceled \<longrightarrow>
      (\<forall>rest r. Start c (sched @ StartReturn i (Some E) # rest) = Some r \<longrightarrow> r = Some E0)
      \<and> Start c (sched @ StartReturn i (Some E) # drain s1) = Some (Some E0)"
  proof (intro allI impI)
    fix E0 more
    assume h: "submitted s = E0 # more \<and> \<not> errors_Is E0 Canceled"
    have "groupErr s = Some E0"
      using first h by simp
    then have "groupErr s1 = Some E0"
      unfolding s1_def by (rule step_groupErr)
    then show "(\<forall>rest r. Start c (sched @ StartReturn i (Some E) # rest) = Some r \<longrightarrow> r = Some E0)
      \<and> Start c (sched @ StartReturn i (Some E) # drain s1) = Some (Some E0)"
      using h by (intro res) simp_all
  qed
  from d a b show ?thesis
    unfolding s1_def by (intro conjI)
qed

theorem critical_failure_first_error_wins_witness:
  "constructed one_task
   \<and> submitted (run [Main, Main] (init one_task)) = []
   \<and> Start one_task ([Main, Main] @ StartReturn 0 (Some (New ''boom''))
        # drain (step (StartReturn 0 (Some (New ''boom''))) (run [Main, Main] (init one_task))))
      = Some (Some (New ''boom''))
   \<and> submitted (run [Main, Main, Main, StartReturn 0 (Some (New ''e1''))] (init two_tasks))
      = [New ''e1'']
   \<and> Start two_tasks ([Main, Main, Main, StartReturn 0 (Some (New ''e1''))]
        @ StartReturn 1 (Some (New ''e2''))
        # drain (step (StartReturn 1 (Some (New ''e2'')))
            (run [Main, Main, Main, StartReturn 0 (Some (New ''e1''))] (init two_tasks))))
      = Some (Some (New ''e1''))"
proof -
  have h: "constructed one_task" "run [Main, Main] (init one_task) = run [Main, Main] (init one_task)"
    "0 < length (tunits (run [Main, Main] (init one_task)))"
    "startU (tunits (run [Main, Main] (init one_task)) ! 0) = StartRunning"
    "IsCriticalToStop (task (tunits (run [Main, Main] (init one_task)) ! 0))"
    "\<not> errors_Is (New ''boom'') Canceled"
    and s1: "submitted (run [Main, Main] (init one_task)) = []"
    by (simp_all add: constructed_def task_a_def one_task_def demo_defs step_defs ctx_defs)
  have k: "constructed two_tasks"
    "run [Main, Main, Main, StartReturn 0 (Some (New ''e1''))] (init two_tasks)
      = run [Main, Main, Main, StartReturn 0 (Some (New ''e1''))] (init two_tasks)"
    "1 < length (tunits (run [Main, Main, Main, StartReturn 0 (Some (New ''e1''))] (init two_tasks)))"
    "startU (tunits (run [Main, Main, Main, StartReturn 0 (Some (New ''e1''))] (init two_tasks)) ! 1)
      = StartRunning"
    "IsCriticalToStop (task (tunits (run [Main, Main, Main, StartReturn 0 (Some (New ''e1''))]
      (init two_tasks)) ! 1))"
    "\<not> errors_Is (New ''e2'') Canceled"
    and s2: "submitted (run [Main, Main, Main, StartReturn 0 (Some (New ''e1''))] (init two_tasks))
      = [New ''e1'']"
    and x: "\<not> errors_Is (New ''e1'') Canceled"
    by (simp_all add: constructed_def task_a_def task_b_def two_tasks_def demo_defs step_defs
        ctx_defs)
  note r1 = critical_failure_first_error_wins [OF h, THEN conjunct2, THEN conjunct1, THEN mp,
      OF s1, THEN conjunct2]
  note r2 = critical_failure_first_error_wins [OF k, THEN conjunct2, THEN conjunct2, THEN spec,
      THEN spec, THEN mp, OF conjI [OF s2 x], THEN conjunct2]
  show ?thesis
    by (intro conjI h(1) s1 s2 r1 r2)
qed

text \<open>
  C3. The \<open>OnStart\<close> of a task that is not critical returns an error. The state after
  that step is the state after a return of nil: the context of the group, the error of
  the group, the errors returned to it and the other units are as before, every
  continuation of the run gives the result it gives after a return of nil, and when
  only cancellations have been returned so far, a call of \<open>Stop()\<close> after which every
  unit runs to its end makes \<open>Start\<close> return nil.
\<close>

theorem noncritical_start_error_discarded:
  assumes "constructed c" and "s = run sched (init c)"
    and "i < length (tunits s)" and "\<not> IsCriticalToStop (task (tunits s ! i))"
  shows "step (StartReturn i (Some e)) s = step (StartReturn i None) s
     \<and> TaskErrorGroupCtx (step (StartReturn i (Some e)) s) = TaskErrorGroupCtx s
     \<and> groupErr (step (StartReturn i (Some e)) s) = groupErr s
     \<and> submitted (step (StartReturn i (Some e)) s) = submitted s
     \<and> (\<forall>j. j \<noteq> i \<longrightarrow> tunits (step (StartReturn i (Some e)) s) ! j = tunits s ! j)
     \<and> (\<forall>rest. Start c (sched @ StartReturn i (Some e) # rest)
               = Start c (sched @ StartReturn i None # rest))
     \<and> (only_cancellations s \<longrightarrow>
          Start c (sched @ StartReturn i (Some e) # CallStop
                   # drain (run (sched @ [StartReturn i (Some e), CallStop]) (init c))) = Some None)"
proof -
  have eq: "step (StartReturn i (Some e)) s = step (StartReturn i None) s"
    by (rule noncritical_step) (simp add: assms(4))
  have same: "TaskErrorGroupCtx (step (StartReturn i (Some e)) s) = TaskErrorGroupCtx s"
    "groupErr (step (StartReturn i (Some e)) s) = groupErr s"
    "submitted (step (StartReturn i (Some e)) s) = submitted s"
    "\<forall>j. j \<noteq> i \<longrightarrow> tunits (step (StartReturn i (Some e)) s) ! j = tunits s ! j"
    using assms(4) by (simp_all add: start_return_def group_return_def)
  have fut: "\<forall>rest. Start c (sched @ StartReturn i (Some e) # rest)
               = Start c (sched @ StartReturn i None # rest)"
    using eq by (simp add: Start_append assms(2))
  have stop: "Start c (sched @ StartReturn i (Some e) # CallStop
                   # drain (run (sched @ [StartReturn i (Some e), CallStop]) (init c))) = Some None"
    if oc: "only_cancellations s"
  proof -
    have "only_cancellations (run (sched @ [StartReturn i (Some e)]) (init c))"
      using oc same(3) by (simp add: only_cancellations_def run_append assms(2))
    then show ?thesis
      using Stop_then_drain [OF assms(1), of "sched @ [StartReturn i (Some e)]"]
      by simp
  qed
  show ?thesis using eq same fut stop by blast
qed

theorem noncritical_start_error_discarded_witness:
  "constructed quiet_task
   \<and> \<not> IsCriticalToStop (task (tunits (run [Main, Main] (init quiet_task)) ! 0))
   \<and> only_cancellations (run [Main, Main] (init quiet_task))
   \<and> Start quiet_task ([Main, Main] @ StartReturn 0 (Some (New ''boom'')) # CallStop
        # drain (run ([Main, Main] @ [StartReturn 0 (Some (New ''boom'')), CallStop])
            (init quiet_task))) = Some None"
proof -
  have h: "constructed quiet_task"
    "run [Main, Main] (init quiet_task) = run [Main, Main] (init quiet_task)"
    "0 < length (tunits (run [Main, Main] (init quiet_task)))"
    "\<not> IsCriticalToStop (task (tunits (run [Main, Main] (init quiet_task)) ! 0))"
    and o: "only_cancellations (run [Main, Main] (init quiet_task))"
    by (simp_all add: constructed_def only_cancellations_def quiet_task_def task_n_def
        demo_defs step_defs ctx_defs)
  show ?thesis
    using noncritical_start_error_discarded [OF h, of "New ''boom''"] h o by blast
qed

text \<open>
  C10. A critical task's \<open>OnStart\<close> returns an error that \<open>errors.Is\<close> takes for
  \<open>context.Canceled\<close>, while the context of the group is still live. After that step
  the context of the group is done: the failure shuts the orchestrator down. Whatever
  happens afterwards, also when units return other errors later, if \<open>Start\<close> returns,
  it returns nil; and it does return nil when every unit then runs to its end.
\<close>

theorem critical_cancellation_is_filtered:
  assumes "constructed c" and "s = run sched (init c)"
    and "i < length (tunits s)" and "startU (tunits s ! i) = StartRunning"
    and "IsCriticalToStop (task (tunits s ! i))"
    and "Err (TaskErrorGroupCtx s) = None" and "errors_Is err Canceled"
  shows "Err (TaskErrorGroupCtx (step (StartReturn i (Some err)) s)) \<noteq> None
     \<and> (\<forall>rest r. Start c (sched @ StartReturn i (Some err) # rest) = Some r \<longrightarrow> r = None)
     \<and> Start c (sched @ StartReturn i (Some err) # drain (step (StartReturn i (Some err)) s))
         = Some None"
proof -
  define s1 where "s1 = step (StartReturn i (Some err)) s"
  have "reach_inv s"
    unfolding assms(2) by (rule reach_init_run)
  then have n: "groupErr s = None"
    using assms(6) by (auto simp: reach_inv_def inv_ctx_def)
  have g: "groupErr s1 = Some err" and d: "Err (TaskErrorGroupCtx s1) \<noteq> None"
    using critical_return_first [OF assms(3-5) n, of err] by (simp_all add: s1_def)
  have i1: "reach_inv s1"
    unfolding s1_def assms(2) by (intro reach_inv_step reach_init_run)
  have e1: "inv_err s1"
    unfolding s1_def assms(2) by (intro inv_err_step inv_err_init_run assms(1))
  have sr: "Start_return (Some err) = None"
    using assms(7) by (simp add: Start_return_def)
  have a: "r = None" if "Start c (sched @ StartReturn i (Some err) # rest) = Some r" for rest r
  proof -
    have "Start_result (run rest s1) = Some r"
      using that by (simp add: Start_append s1_def assms(2))
    moreover have "reach_inv (run rest s1)"
      by (rule reach_inv_run [OF i1])
    ultimately have "r = Start_return (groupErr (run rest s1))"
      by (rule returned_result [rotated])
    then show ?thesis using run_groupErr [OF g, of rest] sr by simp
  qed
  have "Start_result (run (drain s1) s1) = Some (Start_return (groupErr s1))"
    using i1 e1 d by (rule drain_returns)
  then have b: "Start c (sched @ StartReturn i (Some err) # drain s1) = Some None"
    using g sr by (simp add: Start_append s1_def assms(2))
  show ?thesis using a b d by (simp add: s1_def)
qed

theorem critical_cancellation_is_filtered_witness:
  "constructed one_task
   \<and> Err (TaskErrorGroupCtx (run [Main, Main] (init one_task))) = None
   \<and> errors_Is (Wrap ''listen'' Canceled) Canceled
   \<and> Err (TaskErrorGroupCtx (step (StartReturn 0 (Some (Wrap ''listen'' Canceled)))
        (run [Main, Main] (init one_task)))) \<noteq> None
   \<and> Start one_task ([Main, Main] @ StartReturn 0 (Some (Wrap ''listen'' Canceled))
        # drain (step (StartReturn 0 (Some (Wrap ''listen'' Canceled)))
            (run [Main, Main] (init one_task))))
      = Some None"
proof -
  have h: "constructed one_task" "run [Main, Main] (init one_task) = run [Main, Main] (init one_task)"
    "0 < length (tunits (run [Main, Main] (init one_task)))"
    "startU (tunits (run [Main, Main] (init one_task)) ! 0) = StartRunning"
    "IsCriticalToStop (task (tunits (run [Main, Main] (init one_task)) ! 0))"
    "Err (TaskErrorGroupCtx (run [Main, Main] (init one_task))) = None"
    "errors_Is (Wrap ''listen'' Canceled) Canceled"
    by (simp_all add: constructed_def task_a_def one_task_def demo_defs step_defs ctx_defs)
  show ?thesis
    using critical_cancellation_is_filtered [OF h] h by simp
qed

section \<open>Calls of OnStop and of Stop\<close>

text \<open>
  C6. Take any orchestrator and any run, with any calls of \<open>Stop()\<close>, signals and
  failures in any number and order, in which \<open>uuid.NewUUID()\<close> hands no error to the
  stop unit of task \<open>i\<close>; the version 1 generator of \<open>github.com/google/uuid\<close> returns
  a nil error from every call. Then \<open>OnStop\<close> of task \<open>i\<close> has been called at most
  once at every moment of the run, and exactly once when \<open>Start\<close> has returned.
\<close>

theorem OnStop_exactly_once:
  assumes "\<forall>e. StopWake i (Inl e) \<notin> set sched"
  shows "OnStop_count i (run sched (init c)) \<le> 1
     \<and> (Start c sched \<noteq> None \<and> i < length (backgroundTasks c)
          \<longrightarrow> OnStop_count i (run sched (init c)) = 1)"
proof -
  define s where "s = run sched (init c)"
  have exact: "OnStop_count i s = 1"
    if r: "Start c sched \<noteq> None" and l: "i < length (backgroundTasks c)"
  proof -
    have ri: "reach_inv s" unfolding s_def by (rule reach_init_run)
    obtain r where pr: "pc s = Returned r"
      using r by (auto simp: Start_def Start_result_def s_def split: main_pc.splits)
    have bt: "backgroundTasks (brokkr s) = backgroundTasks c"
      using run_fixed [of sched "init c"] by (simp add: s_def)
    have "map task (tunits s) = backgroundTasks (brokkr s)" and ar: "all_returned s"
      using ri pr by (simp_all add: reach_inv_def inv_pc_def)
    then have len: "i < length (tunits s)"
      using l bt by (metis length_map)
    then have "stopU (tunits s ! i) = StopReturned"
      using ar all_returned_nth by blast
    moreover have "\<not> uuid_failed i sched"
      using assms by (simp add: uuid_failed_def)
    ultimately show ?thesis
      using inv_count_run [of i sched c] len by (simp add: inv_count_def s_def)
  qed
  show ?thesis using exact OnStop_count_le [of i sched c] by (simp add: s_def)
qed

theorem OnStop_exactly_once_witness:
  "Start one_task [Main, Main, CallStop, Signal SIGTERM, CallStop, StopWake 0 (Inr ''u1''),
      CallStop, StopReturn 0 None, StartReturn 0 None, CoordCtxDone, Main] = Some None
   \<and> OnStop_count 0 (run [Main, Main, CallStop, Signal SIGTERM, CallStop,
      StopWake 0 (Inr ''u1''), CallStop, StopReturn 0 None, StartReturn 0 None, CoordCtxDone, Main]
      (init one_task)) = 1"
proof -
  have h: "\<forall>e. StopWake 0 (Inl e) \<notin> set [Main, Main, CallStop, Signal SIGTERM, CallStop,
      StopWake 0 (Inr ''u1''), CallStop, StopReturn 0 None, StartReturn 0 None, CoordCtxDone, Main]"
    and r: "Start one_task [Main, Main, CallStop, Signal SIGTERM, CallStop,
      StopWake 0 (Inr ''u1''), CallStop, StopReturn 0 None, StartReturn 0 None, CoordCtxDone, Main]
      = Some None"
    and l: "0 < length (backgroundTasks one_task)"
    by (simp_all add: task_a_def one_task_def demo_defs step_defs ctx_defs)
  show ?thesis
    using OnStop_exactly_once [OF h, of one_task] r l by simp
qed

text \<open>
  Calls of \<open>Stop()\<close> one after another: \<open>Stop()\<close> returns nil, and a second call leaves
  the orchestrator as the first call left it. In a run, from any state, a call of
  \<open>Stop()\<close> that comes after an earlier call, with any steps in between, changes
  nothing. A call of \<open>Stop()\<close> touches neither the error of the group nor the calls of
  \<open>OnStop\<close>, and no run calls \<open>OnStop\<close> of a task more than once.
\<close>

lemma Stop_after_Stop:
  "snd (Stop c) = None
   \<and> fst (Stop (fst (Stop c))) = fst (Stop c)
   \<and> run (xs @ CallStop # ys @ CallStop # zs) s = run (xs @ CallStop # ys @ zs) s
   \<and> groupErr (step CallStop s) = groupErr s
   \<and> OnStop_calls (step CallStop s) = OnStop_calls s
   \<and> OnStop_count i (run sched (init c)) \<le> 1"
proof -
  have a: "snd (Stop c) = None" "fst (Stop (fst (Stop c))) = fst (Stop c)"
    by (simp_all add: Stop_def cancel_def)
  have "stopped (run ys (step CallStop (run xs s)))"
    by (intro stopped_run stopped_CallStop)
  then have "step CallStop (run ys (step CallStop (run xs s))) = run ys (step CallStop (run xs s))"
    by (rule stopped_noop)
  then have b: "run (xs @ CallStop # ys @ CallStop # zs) s = run (xs @ CallStop # ys @ zs) s"
    by (simp add: run_append)
  have d: "groupErr (step CallStop s) = groupErr s" "OnStop_calls (step CallStop s) = OnStop_calls s"
    by (auto simp: step_defs ctx_defs split: splits)
  show ?thesis using a b d OnStop_count_le [of i sched c] by simp
qed

section \<open>Runs in which the code departs from its documentation\<close>

text \<open>
  C4, at a run that is shut down by \<open>Stop()\<close>. One task, the default stop timeout. The
  stop context is derived from \<open>mainContext\<close>, which \<open>Stop()\<close> has cancelled, so the
  context that \<open>OnStop\<close> receives has the deadline of 60 seconds and is done from its
  first moment, with the error \<open>Canceled\<close>; 61 seconds later its error is still
  \<open>Canceled\<close>, not \<open>DeadlineExceeded\<close>. In the run that is shut down by a critical
  failure instead, \<open>mainContext\<close> is live and the same context reports
  \<open>DeadlineExceeded\<close> after 61 seconds.
\<close>

theorem stop_context_cancelled_at_birth:
  "map (\<lambda>call. (Err (snd call), Deadline (snd call)))
     (OnStop_calls (run [Main, Main, CallStop, StopWake 0 (Inr ''u1'')] (init one_task)))
     = [(Some Canceled, Some (60 * Second))]
   \<and> map (\<lambda>u. case stopU u of StopRunning ctx \<Rightarrow> Err ctx | _ \<Rightarrow> None)
       (tunits (run [Main, Main, CallStop, StopWake 0 (Inr ''u1''), Tick 61000000000]
          (init one_task)))
     = [Some Canceled]
   \<and> map (\<lambda>u. case stopU u of StopRunning ctx \<Rightarrow> Err ctx | _ \<Rightarrow> None)
       (tunits (run [Main, Main, StartReturn 0 (Some (New ''boom'')), StopWake 0 (Inr ''u1''),
                     Tick 61000000000] (init one_task)))
     = [Some DeadlineExceeded]"
  by (simp add: task_a_def one_task_def demo_defs step_defs ctx_defs)

text \<open>
  C5, at a run with two tasks named \<open>a\<close> and \<open>b\<close>. The loop has finished when the stop
  units wake up, and both read the name from the range variable: \<open>OnStop\<close> of the task
  \<open>a\<close> is called with a context that carries the name \<open>b\<close>.
\<close>

theorem stop_context_name_of_last_task:
  "map (\<lambda>call. (GetName (backgroundTasks two_tasks ! fst call), Values (snd call)))
     (OnStop_calls (run [Main, Main, Main, CallStop, StopWake 0 (Inr ''u1''),
        StopWake 1 (Inr ''u2'')] (init two_tasks)))
   = [(''a'', [(''u1'', ''b'')]), (''b'', [(''u2'', ''b'')])]"
  by (simp add: task_a_def task_b_def two_tasks_def demo_defs step_defs ctx_defs)

text \<open>
  C8, at a run that is shut down by \<open>Stop()\<close>. The unit that waits for a signal sees the
  context done and returns \<open>Canceled\<close>, which is the first error of the group; the
  error that \<open>OnStop\<close> returns afterwards is dropped and \<open>Start\<close> returns nil. In the
  same run shut down by a signal that unit returns nil, and \<open>Start\<close> returns the error
  of \<open>OnStop\<close>.
\<close>

theorem stop_error_lost_after_Stop:
  "Start one_task [Main, Main, CallStop, CoordCtxDone, StopWake 0 (Inr ''u1''),
      StopReturn 0 (Some (New ''stop failed'')), StartReturn 0 None, Main] = Some None
   \<and> Start one_task [Main, Main, Signal SIGTERM, CoordInterrupt, StopWake 0 (Inr ''u1''),
      StopReturn 0 (Some (New ''stop failed'')), StartReturn 0 None, Main]
     = Some (Some (New ''stop failed''))"
  by (simp add: task_a_def one_task_def demo_defs step_defs ctx_defs)

text \<open>
  C7, at a run in which \<open>Stop()\<close> races with a signal. A signal has arrived and waits
  in the channel: it is the first cause of the shutdown. Left alone, the unit that waits
  for it takes it, returns nil, and \<open>Start\<close> returns the error of \<open>OnStop\<close>. With a
  call of \<open>Stop()\<close> before that unit runs, both branches of its \<open>select\<close> are ready;
  when it takes the branch of the context it returns \<open>Canceled\<close>, the error of
  \<open>OnStop\<close> is dropped and \<open>Start\<close> returns nil. \<open>Stop()\<close> itself returns nil.
\<close>

theorem Stop_racing_signal_changes_result:
  "Start one_task [Main, Main, Signal SIGTERM, CoordInterrupt, StopWake 0 (Inr ''u1''),
      StopReturn 0 (Some (New ''stop failed'')), StartReturn 0 None, Main]
     = Some (Some (New ''stop failed''))
   \<and> Start one_task [Main, Main, Signal SIGTERM, CallStop, CoordCtxDone, StopWake 0 (Inr ''u1''),
      StopReturn 0 (Some (New ''stop failed'')), StartReturn 0 None, Main]
     = Some None
   \<and> snd (Stop one_task) = None"
  by (simp add: task_a_def one_task_def demo_defs step_defs ctx_defs)

end
